theory Spec2Isabelle
  imports Main "HOL-Library.Sublist"
begin

section \<open>Strings\<close>

text \<open>
  A Python \<open>str\<close> is modelled as a HOL \<open>string\<close>, one \<open>char\<close> per character of the
  Python string.  The markers, templates and character classes of the program are all
  ASCII, and the program only compares characters, so the characters that \<open>char\<close> cannot
  tell apart all behave as one that matches nothing.  The operator \<open>needle in haystack\<close> on strings is the contiguous-substring test,
  which is \<open>sublist\<close> of the list library: \<open>\<exists>ps ss. haystack = ps @ needle @ ss\<close>.
\<close>

definition py_in :: "string \<Rightarrow> string \<Rightarrow> bool" where
  "py_in needle haystack = sublist needle haystack"

text \<open>\<open>s.replace(a, b)\<close> for single characters \<open>a\<close> and \<open>b\<close>.\<close>

definition replace_char :: "char \<Rightarrow> char \<Rightarrow> string \<Rightarrow> string" where
  "replace_char a b s = map (\<lambda>c. if c = a then b else c) s"

text \<open>Decimal rendering of an integer, as \<open>str(n)\<close> and \<open>f"{n}"\<close> produce it.\<close>

definition digit_char :: "nat \<Rightarrow> char" where
  "digit_char d = ''0123456789'' ! (d mod 10)"

fun str_nat :: "nat \<Rightarrow> string" where
  "str_nat n = (if n < 10 then [digit_char n] else str_nat (n div 10) @ [digit_char n])"

declare str_nat.simps [simp del]

definition str_int :: "int \<Rightarrow> string" where
  "str_int i = (if i < 0 then CHR ''-'' # str_nat (nat (- i)) else str_nat (nat i))"

section \<open>The environment: logging, standard output, network\<close>

datatype level = DEBUG | INFO | ERROR

text \<open>
  The observable state of one run.  \<open>verbose\<close> is the root logger's threshold: \<open>main\<close>
  leaves it at \<open>INFO\<close> (set by \<open>logging.basicConfig\<close>) or lowers it to \<open>DEBUG\<close> under
  \<open>--verbose\<close>.  \<open>log\<close> holds the emitted records (level and message; the timestamp of
  the format string is not modelled), \<open>stdout\<close> the text of each \<open>print\<close> call, and
  \<open>fetched\<close> the URLs passed to \<open>requests.get\<close>, in the order of the calls.
\<close>

record world =
  verbose :: bool
  log :: "(level \<times> string) list"
  stdout :: "string list"
  fetched :: "string list"

definition logging_info :: "string \<Rightarrow> world \<Rightarrow> world" where
  "logging_info msg w = w\<lparr>log := log w @ [(INFO, msg)]\<rparr>"

definition logging_error :: "string \<Rightarrow> world \<Rightarrow> world" where
  "logging_error msg w = w\<lparr>log := log w @ [(ERROR, msg)]\<rparr>"

definition logging_debug :: "string \<Rightarrow> world \<Rightarrow> world" where
  "logging_debug msg w = (if verbose w then w\<lparr>log := log w @ [(DEBUG, msg)]\<rparr> else w)"

definition print :: "string \<Rightarrow> world \<Rightarrow> world" where
  "print line w = w\<lparr>stdout := stdout w @ [line]\<rparr>"

text \<open>
  What \<open>requests.get\<close> hands back: a response object, of which the program reads
  \<open>text\<close> (the field \<open>resp_text\<close> here) and, through \<open>raise_for_status\<close>, the status
  line and the final URL.
\<close>

record response =
  status_code :: int
  reason :: string
  url :: string
  resp_text :: string

text \<open>
  \<open>requests.exceptions.RequestException\<close> with its message.  Connection errors,
  timeouts, invalid URLs and \<open>HTTPError\<close> are all subclasses of it, and the program
  only ever formats the exception into a log line.
\<close>

datatype request_exception = RequestException string

fun exc_str :: "request_exception \<Rightarrow> string" where
  "exc_str (RequestException msg) = msg"

datatype gaierror = Gaierror

text \<open>
  The two calls that leave the process: \<open>requests.get(url)\<close> returns a response or
  raises a \<open>RequestException\<close>; \<open>socket.gethostbyname(name)\<close> returns an address or
  raises \<open>socket.gaierror\<close>.  These are the exceptions the program catches; the
  environment modelled here raises no other.
\<close>

record env =
  requests_get :: "string \<Rightarrow> request_exception + response"
  gethostbyname :: "string \<Rightarrow> gaierror + string"

text \<open>
  \<open>Response.raise_for_status\<close> of the requests library: an \<open>HTTPError\<close> for a status
  in 400..499 (client error) or 500..599 (server error), nothing otherwise.  The
  source's own comment reads "Raise HTTPError for bad responses (4xx or 5xx)".
\<close>

definition raise_for_status :: "response \<Rightarrow> request_exception + unit" where
  "raise_for_status r =
     (if 400 \<le> status_code r \<and> status_code r < 500 then
        Inl (RequestException (str_int (status_code r) @ '' Client Error: '' @ reason r
                               @ '' for url: '' @ url r))
      else if 500 \<le> status_code r \<and> status_code r < 600 then
        Inl (RequestException (str_int (status_code r) @ '' Server Error: '' @ reason r
                               @ '' for url: '' @ url r))
      else Inr ())"

section \<open>check_bucket_access\<close>

text \<open>The \<open>except requests.exceptions.RequestException as e\<close> handler.\<close>

definition on_request_exception ::
  "string \<Rightarrow> request_exception \<Rightarrow> world \<Rightarrow> bool \<times> world" where
  "on_request_exception bucket_url e w =
     (False, logging_error (''Error checking bucket '' @ bucket_url @ '': '' @ exc_str e) w)"

text \<open>The body of the \<open>try\<close> block after \<open>raise_for_status\<close> has returned.\<close>

definition classify_body :: "string \<Rightarrow> string \<Rightarrow> world \<Rightarrow> bool \<times> world" where
  "classify_body bucket_url body w =
     (if py_in ''ListBucketResult'' body then
        (True, logging_info (''Bucket '' @ bucket_url @ '' is publicly listable.'') w)
      else if py_in ''Contents'' body \<and> py_in ''Name'' body then
        (True, logging_info (''Bucket '' @ bucket_url
                             @ '' appears to be publicly readable (GCS).'') w)
      else if py_in ''EnumerationResults'' body then
        (True, logging_info (''Bucket '' @ bucket_url
                             @ '' appears to be publicly listable (Azure).'') w)
      else if py_in ''AccessDenied'' body \<or> py_in ''NoSuchBucket'' body then
        (False, logging_debug (''Bucket '' @ bucket_url
                  @ '' is likely not publicly accessible or doesn'' @ [CHR 0x27]
                  @ ''t exist.  Received: '' @ take 100 body @ ''...'') w)
      else
        (False, logging_debug (''Bucket '' @ bucket_url
                  @ '' does not appear to be publicly accessible. Received: ''
                  @ take 100 body @ ''...'') w))"

definition check_bucket_access :: "env \<Rightarrow> string \<Rightarrow> world \<Rightarrow> bool \<times> world" where
  "check_bucket_access e bucket_url w0 =
     (let w = w0\<lparr>fetched := fetched w0 @ [bucket_url]\<rparr> in
      case requests_get e bucket_url of
        Inl exc \<Rightarrow> on_request_exception bucket_url exc w
      | Inr resp \<Rightarrow>
          (case raise_for_status resp of
             Inl exc \<Rightarrow> on_request_exception bucket_url exc w
           | Inr _ \<Rightarrow> classify_body bucket_url (resp_text resp) w))"

section \<open>generate_bucket_names\<close>

definition generate_bucket_names :: "string \<Rightarrow> string list" where
  "generate_bucket_names domain =
     [domain @ ''-bucket'',
      ''bucket-'' @ domain,
      domain,
      replace_char (CHR ''.'') (CHR ''-'') domain,
      domain @ ''-public'',
      ''public-'' @ domain]"

section \<open>is_valid_domain\<close>

text \<open>
  The pattern of \<open>re.match\<close> is built from matchers.  A matcher maps the input to the
  list of inputs that remain after each way of matching a prefix of it, so that the
  alternatives a backtracking engine would try are all present, and a match exists
  exactly when some alternative reaches the end of the pattern.
\<close>

type_synonym matcher = "string \<Rightarrow> string list"

text \<open>A character class \<open>[...]\<close>, or a literal character.\<close>

definition cls :: "(char \<Rightarrow> bool) \<Rightarrow> matcher" where
  "cls P s = (case s of [] \<Rightarrow> [] | c # cs \<Rightarrow> if P c then [cs] else [])"

text \<open>Concatenation \<open>r1 r2\<close>.\<close>

definition seq :: "matcher \<Rightarrow> matcher \<Rightarrow> matcher" where
  "seq m1 m2 s = concat (map m2 (m1 s))"

text \<open>\<open>r{n}\<close> and \<open>r{0,n}\<close>.\<close>

primrec rep_exact :: "nat \<Rightarrow> matcher \<Rightarrow> matcher" where
  "rep_exact 0 m s = [s]"
| "rep_exact (Suc n) m s = concat (map (rep_exact n m) (m s))"

primrec rep_upto :: "nat \<Rightarrow> matcher \<Rightarrow> matcher" where
  "rep_upto 0 m s = [s]"
| "rep_upto (Suc n) m s = s # concat (map (rep_upto n m) (m s))"

text \<open>\<open>r{lo,hi}\<close>.\<close>

definition rep_between :: "nat \<Rightarrow> nat \<Rightarrow> matcher \<Rightarrow> matcher" where
  "rep_between lo hi m = seq (rep_exact lo m) (rep_upto (hi - lo) m)"

text \<open>
  \<open>r{lo,}\<close>, and \<open>r+\<close> as \<open>r{1,}\<close>.  Every \<open>r\<close> repeated in the pattern below consumes
  at least one character in each iteration, so an input of length \<open>n\<close> admits at most
  \<open>n\<close> iterations (\<open>rep_atleast_iff\<close> below proves that nothing is lost).
\<close>

definition rep_atleast :: "nat \<Rightarrow> matcher \<Rightarrow> matcher" where
  "rep_atleast lo m s = seq (rep_exact lo m) (rep_upto (length s) m) s"

text \<open>
  \<open>re.match(pattern + "$", s)\<close>: the match starts at the first character, and
  \<open>$\<close> (without \<open>re.MULTILINE\<close>) holds at the end of the string and also just before a
  newline that is the last character of the string.
\<close>

definition re_match :: "matcher \<Rightarrow> string \<Rightarrow> bool" where
  "re_match m s = list_ex (\<lambda>rest. rest = [] \<or> rest = [CHR 0x0A]) (m s)"

definition alpha :: "char \<Rightarrow> bool" where
  "alpha c = (c \<in> set ''abcdefghijklmnopqrstuvwxyzABCDEFGHIJKLMNOPQRSTUVWXYZ'')"

definition digit :: "char \<Rightarrow> bool" where
  "digit c = (c \<in> set ''0123456789'')"

definition alnum :: "char \<Rightarrow> bool" where
  "alnum c = (alpha c \<or> digit c)"

definition alnum_hyphen :: "char \<Rightarrow> bool" where
  "alnum_hyphen c = (alnum c \<or> c = CHR ''-'')"

text \<open>
  \<^verbatim>\<open>^[a-zA-Z0-9][a-zA-Z0-9-]{1,61}[a-zA-Z0-9](?:\.[a-zA-Z]{2,})+$\<close>
\<close>

definition domain_pattern :: matcher where
  "domain_pattern =
     seq (cls alnum)
       (seq (rep_between 1 61 (cls alnum_hyphen))
         (seq (cls alnum)
           (rep_atleast 1 (seq (cls (\<lambda>c. c = CHR ''.'')) (rep_atleast 2 (cls alpha))))))"

definition is_valid_domain :: "env \<Rightarrow> string \<Rightarrow> bool" where
  "is_valid_domain e domain =
     (if \<not> re_match domain_pattern domain then False
      else case gethostbyname e domain of
             Inr _ \<Rightarrow> True
           | Inl Gaierror \<Rightarrow> False)"

section \<open>scan_domain\<close>

text \<open>The three provider URLs built for one bucket name, in the order of the list literal.\<close>

definition bucket_urls :: "string \<Rightarrow> string list" where
  "bucket_urls bucket_name =
     [''https://'' @ bucket_name @ ''.s3.amazonaws.com'',
      ''https://storage.googleapis.com/'' @ bucket_name,
      ''https://'' @ bucket_name @ ''.blob.core.windows.net'']"

text \<open>The inner loop \<open>for bucket_url in bucket_urls\<close>, threading \<open>accessible_buckets\<close>.\<close>

fun probe_urls :: "env \<Rightarrow> string list \<Rightarrow> string list \<Rightarrow> world \<Rightarrow> string list \<times> world" where
  "probe_urls e [] accessible_buckets w = (accessible_buckets, w)"
| "probe_urls e (bucket_url # rest) accessible_buckets w =
     (case check_bucket_access e bucket_url w of
        (ok, w') \<Rightarrow>
          probe_urls e rest
            (if ok then accessible_buckets @ [bucket_url] else accessible_buckets) w')"

text \<open>The outer loop \<open>for bucket_name in bucket_names\<close>.\<close>

fun probe_names :: "env \<Rightarrow> string list \<Rightarrow> string list \<Rightarrow> world \<Rightarrow> string list \<times> world" where
  "probe_names e [] accessible_buckets w = (accessible_buckets, w)"
| "probe_names e (bucket_name # rest) accessible_buckets w =
     (case probe_urls e (bucket_urls bucket_name) accessible_buckets w of
        (accessible_buckets', w') \<Rightarrow> probe_names e rest accessible_buckets' w')"

text \<open>The summary printed after the loops.\<close>

definition report :: "string \<Rightarrow> string list \<Rightarrow> world \<Rightarrow> world" where
  "report domain accessible_buckets w =
     (if accessible_buckets \<noteq> [] then
        fold (\<lambda>bucket_url. print (''- '' @ bucket_url)) accessible_buckets
          (print (CHR 0x0A # ''Publicly accessible buckets found for domain '' @ domain @ '':'') w)
      else
        print (''No publicly accessible buckets found for domain '' @ domain @ ''.'') w)"

definition scan_domain :: "env \<Rightarrow> string \<Rightarrow> world \<Rightarrow> world" where
  "scan_domain e domain w =
     (if \<not> is_valid_domain e domain then logging_error (''Invalid domain: '' @ domain) w
      else case probe_names e (generate_bucket_names domain) [] w of
             (accessible_buckets, w') \<Rightarrow> report domain accessible_buckets w')"

text \<open>\<open>main\<close>, with the parsed arguments \<open>args.verbose\<close> and \<open>args.domain\<close>.\<close>

definition main :: "env \<Rightarrow> bool \<Rightarrow> string \<Rightarrow> world \<Rightarrow> world" where
  "main e args_verbose args_domain w =
     scan_domain e args_domain (if args_verbose then w\<lparr>verbose := True\<rparr> else w)"

section \<open>Derived notions and sample inputs\<close>

text \<open>
  The value \<open>check_bucket_access\<close> returns for a URL; it does not depend on the state
  the call starts in (\<open>fst_check_bucket_access\<close> below).
\<close>

definition accessible :: "env \<Rightarrow> string \<Rightarrow> bool" where
  "accessible e bucket_url =
     fst (check_bucket_access e bucket_url \<lparr>verbose = False, log = [], stdout = [], fetched = []\<rparr>)"

text \<open>All URLs the two nested loops of \<open>scan_domain\<close> iterate over, in loop order.\<close>

definition probe_targets :: "string \<Rightarrow> string list" where
  "probe_targets domain = concat (map bucket_urls (generate_bucket_names domain))"

text \<open>Stubs for the network and a starting state with debug logging on.\<close>

definition fresh_world :: world where
  "fresh_world = \<lparr>verbose = True, log = [], stdout = [], fetched = []\<rparr>"

definition stub_response :: "int \<Rightarrow> string \<Rightarrow> string \<Rightarrow> response" where
  "stub_response code u body = \<lparr>status_code = code, reason = ''stub'', url = u, resp_text = body\<rparr>"

definition stub_env :: "(string \<Rightarrow> request_exception + response) \<Rightarrow> env" where
  "stub_env get = \<lparr>requests_get = get, gethostbyname = (\<lambda>name. Inr ''192.0.2.1'')\<rparr>"

definition always_respond :: "int \<Rightarrow> string \<Rightarrow> env" where
  "always_respond code body = stub_env (\<lambda>u. Inr (stub_response code u body))"


definition both_markers_body :: string where
  "both_markers_body = ''<ListBucketResult><Code>AccessDenied</Code></ListBucketResult>''"


section \<open>Hostname shapes and the language of a matcher\<close>

text \<open>\<open>s.split('.')\<close>: the labels of a dotted name.\<close>

fun split_dots :: "string \<Rightarrow> string list" where
  "split_dots [] = [[]]"
| "split_dots (c # cs) =
     (if c = CHR ''.'' then [] # split_dots cs
      else case split_dots cs of
             [] \<Rightarrow> [[c]]
           | l # ls \<Rightarrow> (c # l) # ls)"

text \<open>The labels \<open>ls\<close>, each written after a dot.\<close>

definition dotted :: "string list \<Rightarrow> string" where
  "dotted ls = concat (map (\<lambda>l. CHR ''.'' # l) ls)"

text \<open>
  The hostname grammar in the words of the specification: labels of 1 to 63
  alphanumeric or hyphen characters, not starting or ending in a hyphen, at least one
  dot, final label alphabetic of at least 2 characters.
\<close>

definition spec_label :: "string \<Rightarrow> bool" where
  "spec_label l =
     (1 \<le> length l \<and> length l \<le> 63 \<and> list_all alnum_hyphen l
      \<and> hd l \<noteq> CHR ''-'' \<and> last l \<noteq> CHR ''-'')"

definition spec_hostname :: "string \<Rightarrow> bool" where
  "spec_hostname d =
     (let labels = split_dots d
      in 2 \<le> length labels \<and> list_all spec_label labels
         \<and> 2 \<le> length (last labels) \<and> list_all alpha (last labels))"

text \<open>
  The shape the pattern of \<open>is_valid_domain\<close> accepts (\<open>re_match_iff_accepted\<close> below):
  a first label of 3 to 63 alphanumeric or hyphen characters, not starting or ending in
  a hyphen, then one or more labels that are alphabetic and of at least 2 characters.
\<close>

definition first_label :: "string \<Rightarrow> bool" where
  "first_label l =
     (3 \<le> length l \<and> length l \<le> 63 \<and> list_all alnum_hyphen l
      \<and> hd l \<noteq> CHR ''-'' \<and> last l \<noteq> CHR ''-'')"

definition alpha_label :: "string \<Rightarrow> bool" where
  "alpha_label l = (2 \<le> length l \<and> list_all alpha l)"

definition accepted_hostname :: "string \<Rightarrow> bool" where
  "accepted_hostname d =
     (case split_dots d of
        [] \<Rightarrow> False
      | l # ls \<Rightarrow> first_label l \<and> ls \<noteq> [] \<and> list_all alpha_label ls)"

definition shape :: "string \<Rightarrow> bool" where
  "shape d = (\<exists>l ls. d = l @ dotted ls \<and> first_label l \<and> ls \<noteq> [] \<and> list_all alpha_label ls)"

text \<open>
  Sets of strings, their concatenation and powers, and what it means for a matcher to
  recognise such a set: the inputs a matcher leaves are exactly those that remain after
  a prefix in the set.
\<close>

definition conc :: "string set \<Rightarrow> string set \<Rightarrow> string set" where
  "conc A B = {u @ v | u v. u \<in> A \<and> v \<in> B}"

primrec lpow :: "nat \<Rightarrow> string set \<Rightarrow> string set" where
  "lpow 0 A = {[]}"
| "lpow (Suc n) A = conc A (lpow n A)"

definition matches :: "matcher \<Rightarrow> string set \<Rightarrow> bool" where
  "matches m L = (\<forall>s rest. rest \<in> set (m s) \<longleftrightarrow> (\<exists>w. w \<in> L \<and> s = w @ rest))"

definition CL :: "(char \<Rightarrow> bool) \<Rightarrow> string set" where
  "CL P = {[c] | c. P c}"

definition mid_lang :: "string set" where
  "mid_lang = (\<Union>k\<in>{1..61}. lpow k (CL alnum_hyphen))"

definition tail_lang :: "string set" where
  "tail_lang = {w. \<exists>ls. w = dotted ls \<and> ls \<noteq> [] \<and> list_all alpha_label ls}"

section \<open>The classifier\<close>

lemma always_respond_get:
  "requests_get (always_respond code body) u = Inr (stub_response code u body)"
  by (simp add: always_respond_def stub_env_def)

lemma stub_response_sel:
  "status_code (stub_response code u body) = code"
  "resp_text (stub_response code u body) = body"
  "reason (stub_response code u body) = ''stub''"
  "url (stub_response code u body) = u"
  by (simp_all add: stub_response_def)

lemma raise_for_status_ok_iff:
  "raise_for_status r = Inr () \<longleftrightarrow> status_code r < 400 \<or> 600 \<le> status_code r"
  by (auto simp: raise_for_status_def)

lemma fst_classify_body:
  "fst (classify_body u b w) \<longleftrightarrow>
     py_in ''ListBucketResult'' b \<or> (py_in ''Contents'' b \<and> py_in ''Name'' b)
     \<or> py_in ''EnumerationResults'' b"
  by (simp add: classify_body_def)

lemma check_ok:
  "requests_get e u = Inr r \<Longrightarrow> raise_for_status r = Inr () \<Longrightarrow>
   check_bucket_access e u w = classify_body u (resp_text r) (w\<lparr>fetched := fetched w @ [u]\<rparr>)"
  by (simp add: check_bucket_access_def)


lemma classify_body_fields:
  "fetched (snd (classify_body u b w)) = fetched w"
  "stdout (snd (classify_body u b w)) = stdout w"
  by (simp_all add: classify_body_def logging_info_def logging_debug_def)

lemma on_request_exception_fields:
  "fetched (snd (on_request_exception u x w)) = fetched w"
  "stdout (snd (on_request_exception u x w)) = stdout w"
  by (simp_all add: on_request_exception_def logging_error_def)

lemma check_bucket_access_fields:
  "fetched (snd (check_bucket_access e u w)) = fetched w @ [u]"
  "stdout (snd (check_bucket_access e u w)) = stdout w"
  by (simp_all add: check_bucket_access_def Let_def classify_body_fields
        on_request_exception_fields split: sum.splits)

lemma fst_check_bucket_access:
  "fst (check_bucket_access e u w) = accessible e u"
  by (simp add: accessible_def check_bucket_access_def Let_def fst_classify_body
        on_request_exception_def split: sum.splits)

text \<open>
  C1.  Priority law: when the fetch returns a response that \<open>raise_for_status\<close> lets
  through and the body contains both \<open>ListBucketResult\<close> and \<open>AccessDenied\<close>,
  \<open>check_bucket_access\<close> returns \<open>True\<close> (with the S3 diagnostic): the accessible
  signatures are tested before the denial markers and the first match wins.
\<close>

theorem listing_marker_wins_over_denial_marker:
  assumes "requests_get e u = Inr r" and "raise_for_status r = Inr ()"
    and "py_in ''ListBucketResult'' (resp_text r)" and "py_in ''AccessDenied'' (resp_text r)"
  shows "check_bucket_access e u w =
           (True, logging_info (''Bucket '' @ u @ '' is publicly listable.'')
                    (w\<lparr>fetched := fetched w @ [u]\<rparr>))"
  using assms by (simp add: check_ok classify_body_def)

theorem listing_marker_wins_over_denial_marker_witness:
  "py_in ''ListBucketResult'' both_markers_body \<and> py_in ''AccessDenied'' both_markers_body \<and>
   fst (check_bucket_access (always_respond 200 both_markers_body)
          ''https://example.com.s3.amazonaws.com'' fresh_world)"
proof -
  let ?u = "''https://example.com.s3.amazonaws.com''"
  let ?r = "stub_response 200 ?u both_markers_body"
  have g: "requests_get (always_respond 200 both_markers_body) ?u = Inr ?r"
    by (rule always_respond_get)
  have ok: "raise_for_status ?r = Inr ()"
    by (simp add: raise_for_status_ok_iff stub_response_sel)
  have m1: "py_in ''ListBucketResult'' (resp_text ?r)"
    unfolding stub_response_sel by code_simp
  have m2: "py_in ''AccessDenied'' (resp_text ?r)"
    unfolding stub_response_sel by code_simp
  show ?thesis
    using listing_marker_wins_over_denial_marker [OF g ok m1 m2, of fresh_world] m1 m2
    by (simp add: stub_response_sel)
qed


text \<open>
  C2 (as amended).  A response with a 4xx status is turned into an \<open>HTTPError\<close> by
  \<open>raise_for_status\<close>, so \<open>check_bucket_access\<close> logs the error and returns \<open>False\<close>
  whatever the body holds; the body-signature tests are not reached.  The sample input
  shows the claim as stated failing: status 403, body with \<open>ListBucketResult\<close>.
\<close>

theorem client_error_status_is_denied:
  assumes "requests_get e u = Inr r" and "400 \<le> status_code r" and "status_code r < 500"
  shows "check_bucket_access e u w =
           (False, logging_error (''Error checking bucket '' @ u @ '': ''
                      @ str_int (status_code r) @ '' Client Error: '' @ reason r
                      @ '' for url: '' @ url r)
                    (w\<lparr>fetched := fetched w @ [u]\<rparr>))"
  using assms
  by (simp add: check_bucket_access_def raise_for_status_def on_request_exception_def)

theorem client_error_status_is_denied_witness:
  "py_in ''ListBucketResult'' ''<ListBucketResult/>'' \<and>
   check_bucket_access (always_respond 403 ''<ListBucketResult/>'')
      ''https://example.com.s3.amazonaws.com'' fresh_world =
   (False, fresh_world\<lparr>log := [(ERROR, ''Error checking bucket https://example.com.s3.amazonaws.com: 403 Client Error: stub for url: https://example.com.s3.amazonaws.com'')],
       fetched := [''https://example.com.s3.amazonaws.com'']\<rparr>)"
proof -
  let ?u = "''https://example.com.s3.amazonaws.com''"
  let ?r = "stub_response 403 ?u ''<ListBucketResult/>''"
  have g: "requests_get (always_respond 403 ''<ListBucketResult/>'') ?u = Inr ?r"
    by (rule always_respond_get)
  have lo: "400 \<le> status_code ?r" and hi: "status_code ?r < 500"
    by (simp_all add: stub_response_sel)
  have s: "str_int 403 = ''403''" by code_simp
  have m: "py_in ''ListBucketResult'' ''<ListBucketResult/>''" by code_simp
  show ?thesis
    using client_error_status_is_denied [OF g lo hi, of fresh_world] m
    by (simp add: stub_response_sel s logging_error_def fresh_world_def)
qed

theorem client_error_with_listing_marker_counterexample:
  "requests_get (always_respond 403 ''<ListBucketResult/>'') ''https://example.com.s3.amazonaws.com''
     = Inr (stub_response 403 ''https://example.com.s3.amazonaws.com'' ''<ListBucketResult/>'') \<and>
   py_in ''ListBucketResult'' ''<ListBucketResult/>'' \<and>
   fst (check_bucket_access (always_respond 403 ''<ListBucketResult/>'')
          ''https://example.com.s3.amazonaws.com'' fresh_world) = False"
proof -
  have "py_in ''ListBucketResult'' ''<ListBucketResult/>''" by code_simp
  then show ?thesis
    by (simp add: always_respond_get check_bucket_access_def raise_for_status_def
          stub_response_sel on_request_exception_def)
qed




text \<open>
  C9.  A successful response with an empty body matches no signature:
  \<open>check_bucket_access\<close> takes the fall-through branch (its debug message is the
  "does not appear to be publicly accessible" one, not the denial one), returns
  \<open>False\<close>, and the loop does not add the URL to \<open>accessible_buckets\<close>.
\<close>

theorem empty_body_is_inconclusive:
  assumes "requests_get e u = Inr r" and "raise_for_status r = Inr ()"
    and "resp_text r = []"
  shows "check_bucket_access e u w =
           (False, logging_debug
                     (''Bucket '' @ u @ '' does not appear to be publicly accessible. Received: ...'')
                     (w\<lparr>fetched := fetched w @ [u]\<rparr>)) \<and>
         fst (probe_urls e [u] accessible_buckets w) = accessible_buckets"
proof -
  have np: "\<not> py_in m []" if "m \<noteq> []" for m
    using that by (simp add: py_in_def)
  have c: "check_bucket_access e u w =
           (False, logging_debug
                     (''Bucket '' @ u @ '' does not appear to be publicly accessible. Received: ...'')
                     (w\<lparr>fetched := fetched w @ [u]\<rparr>))"
    using assms by (simp add: check_ok classify_body_def np)
  then show ?thesis by simp
qed

theorem empty_body_is_inconclusive_witness:
  "check_bucket_access (always_respond 200 []) ''https://storage.googleapis.com/example.com'' fresh_world =
     (False, fresh_world\<lparr>log := [(DEBUG, ''Bucket https://storage.googleapis.com/example.com does not appear to be publicly accessible. Received: ...'')],
        fetched := [''https://storage.googleapis.com/example.com'']\<rparr>) \<and>
   fst (probe_urls (always_respond 200 []) [''https://storage.googleapis.com/example.com''] [] fresh_world) = []"
proof -
  let ?u = "''https://storage.googleapis.com/example.com''"
  let ?r = "stub_response 200 ?u []"
  have g: "requests_get (always_respond 200 []) ?u = Inr ?r"
    by (rule always_respond_get)
  have ok: "raise_for_status ?r = Inr ()"
    by (simp add: raise_for_status_ok_iff stub_response_sel)
  have t: "resp_text ?r = []" by (simp add: stub_response_sel)
  show ?thesis
    using empty_body_is_inconclusive [OF g ok t, of fresh_world "[]"]
    by (simp add: logging_debug_def fresh_world_def)
qed

text \<open>
  C10.  For a response that \<open>raise_for_status\<close> lets through, \<open>check_bucket_access\<close>
  returns \<open>True\<close> exactly when the body contains \<open>ListBucketResult\<close>, or both
  \<open>Contents\<close> and \<open>Name\<close>, or \<open>EnumerationResults\<close>; otherwise it returns \<open>False\<close>,
  for a body with a denial marker and for a body with no marker alike.
\<close>

theorem check_bucket_access_true_iff:
  assumes "requests_get e u = Inr r" and "raise_for_status r = Inr ()"
  shows "(fst (check_bucket_access e u w) \<longleftrightarrow>
            py_in ''ListBucketResult'' (resp_text r)
            \<or> (py_in ''Contents'' (resp_text r) \<and> py_in ''Name'' (resp_text r))
            \<or> py_in ''EnumerationResults'' (resp_text r)) \<and>
         (\<not> py_in ''ListBucketResult'' (resp_text r)
          \<and> \<not> (py_in ''Contents'' (resp_text r) \<and> py_in ''Name'' (resp_text r))
          \<and> \<not> py_in ''EnumerationResults'' (resp_text r) \<longrightarrow>
            fst (check_bucket_access e u w) = False)"
  using assms by (simp add: check_ok fst_classify_body)

theorem check_bucket_access_true_iff_witness:
  "fst (check_bucket_access (always_respond 200 ''<Error><Code>AccessDenied</Code></Error>'')
         ''https://example.com.s3.amazonaws.com'' fresh_world) = False \<and>
   fst (check_bucket_access (always_respond 200 ''<html>hello</html>'')
         ''https://example.com.s3.amazonaws.com'' fresh_world) = False \<and>
   fst (check_bucket_access (always_respond 200 ''{Contents: [], Name: 1}'')
         ''https://example.com.s3.amazonaws.com'' fresh_world) = True"
proof -
  let ?u = "''https://example.com.s3.amazonaws.com''"
  have ok: "raise_for_status (stub_response 200 ?u b) = Inr ()" for b
    by (simp add: raise_for_status_ok_iff stub_response_sel)
  have d: "\<not> py_in ''ListBucketResult'' ''<Error><Code>AccessDenied</Code></Error>''"
    "\<not> py_in ''Contents'' ''<Error><Code>AccessDenied</Code></Error>''"
    "\<not> py_in ''EnumerationResults'' ''<Error><Code>AccessDenied</Code></Error>''"
    by code_simp+
  have n: "\<not> py_in ''ListBucketResult'' ''<html>hello</html>''"
    "\<not> py_in ''Contents'' ''<html>hello</html>''"
    "\<not> py_in ''EnumerationResults'' ''<html>hello</html>''"
    by code_simp+
  have a: "py_in ''Contents'' ''{Contents: [], Name: 1}''" "py_in ''Name'' ''{Contents: [], Name: 1}''"
    by code_simp+
  have g: "requests_get (always_respond 200 b) ?u = Inr (stub_response 200 ?u b)" for b
    by (rule always_respond_get)
  show ?thesis
    using check_bucket_access_true_iff
            [OF g ok, of "''<Error><Code>AccessDenied</Code></Error>''" fresh_world]
      check_bucket_access_true_iff [OF g ok, of "''<html>hello</html>''" fresh_world]
      check_bucket_access_true_iff [OF g ok, of "''{Contents: [], Name: 1}''" fresh_world]
      d n a
    by (simp add: stub_response_sel)
qed

section \<open>The name generator\<close>

text \<open>
  C3 (as amended).  \<open>generate_bucket_names\<close> lists its six names in the order
  \<open>{domain}-bucket\<close>, \<open>bucket-{domain}\<close>, the domain itself, dots replaced by hyphens,
  \<open>{domain}-public\<close>, \<open>public-{domain}\<close>: the first name is never the domain itself,
  which comes third.
\<close>

theorem generate_bucket_names_order:
  "generate_bucket_names d ! 0 = d @ ''-bucket'' \<and>
   generate_bucket_names d ! 1 = ''bucket-'' @ d \<and>
   generate_bucket_names d ! 2 = d \<and>
   generate_bucket_names d ! 3 = replace_char (CHR ''.'') (CHR ''-'') d \<and>
   generate_bucket_names d ! 4 = d @ ''-public'' \<and>
   generate_bucket_names d ! 5 = ''public-'' @ d \<and>
   generate_bucket_names d ! 0 \<noteq> d \<and>
   CHR ''.'' \<notin> set (generate_bucket_names d ! 3)"
  by (auto simp: generate_bucket_names_def replace_char_def)

theorem generate_bucket_names_order_witness:
  "generate_bucket_names ''example.com'' ! 0 = ''example.com-bucket'' \<and>
   generate_bucket_names ''example.com'' ! 1 = ''bucket-example.com'' \<and>
   generate_bucket_names ''example.com'' ! 2 = ''example.com'' \<and>
   generate_bucket_names ''example.com'' ! 3 = ''example-com''"
  using generate_bucket_names_order [of "''example.com''"]
  by (simp add: replace_char_def)

theorem identity_first_counterexample:
  "\<not> (generate_bucket_names ''example.com'' ! 0 = ''example.com'' \<and>
      generate_bucket_names ''example.com'' ! 1 = ''example.com-bucket'')"
  by (simp add: generate_bucket_names_def)

section \<open>The scan\<close>

lemma probe_urls_result:
  "fst (probe_urls e us acc w) = acc @ filter (accessible e) us"
proof (induction us arbitrary: acc w)
  case Nil
  show ?case by simp
next
  case (Cons u us)
  obtain ok w' where c: "check_bucket_access e u w = (ok, w')"
    by (cases "check_bucket_access e u w")
  have "ok = accessible e u" using fst_check_bucket_access[of e u w] c by simp
  then show ?case using c Cons.IH by simp
qed

lemma probe_urls_fields:
  "fetched (snd (probe_urls e us acc w)) = fetched w @ us \<and>
   stdout (snd (probe_urls e us acc w)) = stdout w"
proof (induction us arbitrary: acc w)
  case Nil
  show ?case by simp
next
  case (Cons u us)
  obtain ok w' where c: "check_bucket_access e u w = (ok, w')"
    by (cases "check_bucket_access e u w")
  have "fetched w' = fetched w @ [u]" "stdout w' = stdout w"
    using check_bucket_access_fields[of e u w] c by simp_all
  then show ?case using c Cons.IH[of _ w'] by simp
qed

lemma probe_names_result:
  "fst (probe_names e names acc w) = acc @ filter (accessible e) (concat (map bucket_urls names))"
proof (induction names arbitrary: acc w)
  case Nil
  show ?case by simp
next
  case (Cons n names)
  obtain acc' w' where c: "probe_urls e (bucket_urls n) acc w = (acc', w')"
    by (cases "probe_urls e (bucket_urls n) acc w")
  have "acc' = acc @ filter (accessible e) (bucket_urls n)"
    using probe_urls_result[of e "bucket_urls n" acc w] c by simp
  then show ?case using c Cons.IH[of acc' w'] by simp
qed

lemma probe_names_fields:
  "fetched (snd (probe_names e names acc w)) = fetched w @ concat (map bucket_urls names) \<and>
   stdout (snd (probe_names e names acc w)) = stdout w"
proof (induction names arbitrary: acc w)
  case Nil
  show ?case by simp
next
  case (Cons n names)
  obtain acc' w' where c: "probe_urls e (bucket_urls n) acc w = (acc', w')"
    by (cases "probe_urls e (bucket_urls n) acc w")
  have "fetched w' = fetched w @ bucket_urls n" "stdout w' = stdout w"
    using probe_urls_fields[of e "bucket_urls n" acc w] c by simp_all
  then show ?case using c Cons.IH[of acc' w'] by simp
qed

lemma fold_print_fields:
  "fetched (fold (\<lambda>x. print (f x)) xs w) = fetched w \<and>
   stdout (fold (\<lambda>x. print (f x)) xs w) = stdout w @ map f xs"
  by (induction xs arbitrary: w) (simp_all add: print_def)

lemma report_fetched: "fetched (report d acc w) = fetched w"
  by (simp add: report_def fold_print_fields print_def)


lemma scan_domain_valid:
  assumes "is_valid_domain e d"
  shows "scan_domain e d w =
     report d (filter (accessible e) (probe_targets d))
       (snd (probe_names e (generate_bucket_names d) [] w))"
  using assms probe_names_result[of e "generate_bucket_names d" "[]" w]
  by (auto simp: scan_domain_def probe_targets_def split: prod.splits)

lemma scan_domain_valid_fetched:
  assumes "is_valid_domain e d"
  shows "fetched (scan_domain e d w) = fetched w @ probe_targets d"
  using probe_names_fields[of e "generate_bucket_names d" "[]" w]
  by (simp add: scan_domain_valid[OF assms] report_fetched probe_targets_def)


lemma probe_targets_nth:
  "i < 6 \<Longrightarrow> j < 3 \<Longrightarrow>
   probe_targets d ! (3 * i + j) = bucket_urls (generate_bucket_names d ! i) ! j"
  by (simp add: probe_targets_def generate_bucket_names_def bucket_urls_def
        less_Suc_eq numeral_eq_Suc; elim disjE; simp)

lemma is_valid_example: "is_valid_domain (always_respond code body) ''example.com''"
proof -
  have "re_match domain_pattern ''example.com''" by code_simp
  then show ?thesis by (simp add: is_valid_domain_def always_respond_def stub_env_def)
qed

text \<open>
  C5.  For every string \<open>d\<close>, \<open>generate_bucket_names\<close> returns six names, and the loops
  of \<open>scan_domain\<close> run over eighteen URLs: the three provider URLs (S3, GCS, Azure, in
  this order) of the first name, then those of the second, and so on.  A scan of a
  valid domain fetches exactly these URLs in exactly this order, whatever the
  responses and the starting state are.
\<close>

theorem six_names_eighteen_targets:
  "length (generate_bucket_names d) = 6 \<and>
   length (probe_targets d) = 18 \<and>
   bucket_urls b = [''https://'' @ b @ ''.s3.amazonaws.com'',
                    ''https://storage.googleapis.com/'' @ b,
                    ''https://'' @ b @ ''.blob.core.windows.net''] \<and>
   (\<forall>i<6. \<forall>j<3. probe_targets d ! (3 * i + j) = bucket_urls (generate_bucket_names d ! i) ! j) \<and>
   (is_valid_domain e d \<longrightarrow> fetched (scan_domain e d w) = fetched w @ probe_targets d)"
proof -
  have "length (generate_bucket_names d) = 6"
    by (simp add: generate_bucket_names_def)
  moreover have "length (probe_targets d) = 18"
    by (simp add: probe_targets_def generate_bucket_names_def bucket_urls_def)
  moreover have "bucket_urls b = [''https://'' @ b @ ''.s3.amazonaws.com'',
                    ''https://storage.googleapis.com/'' @ b,
                    ''https://'' @ b @ ''.blob.core.windows.net'']"
    by (simp add: bucket_urls_def)
  ultimately show ?thesis
    using probe_targets_nth scan_domain_valid_fetched by blast
qed

theorem six_names_eighteen_targets_witness:
  "is_valid_domain (always_respond 404 []) ''example.com'' \<and>
   fetched (scan_domain (always_respond 404 []) ''example.com'' fresh_world) =
     [''https://example.com-bucket.s3.amazonaws.com'',
      ''https://storage.googleapis.com/example.com-bucket'',
      ''https://example.com-bucket.blob.core.windows.net'',
      ''https://bucket-example.com.s3.amazonaws.com'',
      ''https://storage.googleapis.com/bucket-example.com'',
      ''https://bucket-example.com.blob.core.windows.net'',
      ''https://example.com.s3.amazonaws.com'',
      ''https://storage.googleapis.com/example.com'',
      ''https://example.com.blob.core.windows.net'',
      ''https://example-com.s3.amazonaws.com'',
      ''https://storage.googleapis.com/example-com'',
      ''https://example-com.blob.core.windows.net'',
      ''https://example.com-public.s3.amazonaws.com'',
      ''https://storage.googleapis.com/example.com-public'',
      ''https://example.com-public.blob.core.windows.net'',
      ''https://public-example.com.s3.amazonaws.com'',
      ''https://storage.googleapis.com/public-example.com'',
      ''https://public-example.com.blob.core.windows.net'']"
  using six_names_eighteen_targets [of "''example.com''" "[]" "always_respond 404 []" fresh_world]
    is_valid_example [of 404 "[]"]
  by (simp add: probe_targets_def generate_bucket_names_def bucket_urls_def replace_char_def
        fresh_world_def)

text \<open>
  C7.  When \<open>is_valid_domain\<close> returns \<open>False\<close>, \<open>scan_domain\<close> logs the single error
  "Invalid domain: ..." and returns: no URL is fetched and nothing is printed.
\<close>

theorem invalid_domain_aborts_scan:
  assumes "\<not> is_valid_domain e d"
  shows "log (scan_domain e d w) = log w @ [(ERROR, ''Invalid domain: '' @ d)] \<and>
         fetched (scan_domain e d w) = fetched w \<and>
         stdout (scan_domain e d w) = stdout w"
  using assms by (simp add: scan_domain_def logging_error_def)

theorem invalid_domain_aborts_scan_witness:
  "\<not> is_valid_domain (always_respond 200 both_markers_body) ''not a domain'' \<and>
   log (scan_domain (always_respond 200 both_markers_body) ''not a domain'' fresh_world) =
     [(ERROR, ''Invalid domain: not a domain'')] \<and>
   fetched (scan_domain (always_respond 200 both_markers_body) ''not a domain'' fresh_world) = [] \<and>
   stdout (scan_domain (always_respond 200 both_markers_body) ''not a domain'' fresh_world) = []"
proof -
  have "\<not> re_match domain_pattern ''not a domain''" by code_simp
  then have n: "\<not> is_valid_domain (always_respond 200 both_markers_body) ''not a domain''"
    by (simp add: is_valid_domain_def)
  show ?thesis
    using invalid_domain_aborts_scan [OF n, of fresh_world] n
    by (simp add: fresh_world_def)
qed





section \<open>The validator\<close>

lemma matchesD: "matches m L \<Longrightarrow> rest \<in> set (m s) \<longleftrightarrow> (\<exists>w. w \<in> L \<and> s = w @ rest)"
  by (simp add: matches_def)

lemma matches_cls: "matches (cls P) {[c] | c. P c}"
  unfolding matches_def cls_def by (auto split: list.splits)

lemma matches_seq:
  assumes "matches m1 A" and "matches m2 B"
  shows "matches (seq m1 m2) (conc A B)"
  unfolding matches_def
proof (intro allI iffI)
  fix s rest
  assume "rest \<in> set (seq m1 m2 s)"
  then obtain mid where "mid \<in> set (m1 s)" "rest \<in> set (m2 mid)"
    by (auto simp: seq_def)
  then obtain u v where "u \<in> A" "s = u @ mid" "v \<in> B" "mid = v @ rest"
    using matchesD[OF assms(1)] matchesD[OF assms(2)] by blast
  then show "\<exists>w. w \<in> conc A B \<and> s = w @ rest"
    by (intro exI[of _ "u @ v"]) (auto simp: conc_def)
next
  fix s rest
  assume "\<exists>w. w \<in> conc A B \<and> s = w @ rest"
  then obtain u v where uv: "u \<in> A" "v \<in> B" "s = u @ v @ rest"
    by (auto simp: conc_def)
  then have "v @ rest \<in> set (m1 s)" "rest \<in> set (m2 (v @ rest))"
    using matchesD[OF assms(1)] matchesD[OF assms(2)] by blast+
  then show "rest \<in> set (seq m1 m2 s)"
    by (auto simp: seq_def)
qed

lemma matches_rep_exact:
  assumes "matches m A"
  shows "matches (rep_exact n m) (lpow n A)"
proof (induction n)
  case 0
  show ?case by (auto simp: matches_def)
next
  case (Suc n)
  have "matches (seq m (rep_exact n m)) (conc A (lpow n A))"
    by (rule matches_seq[OF assms Suc])
  then show ?case by (simp add: matches_def seq_def)
qed

lemma matches_rep_upto:
  assumes "matches m A"
  shows "matches (rep_upto n m) (\<Union>k\<in>{..n}. lpow k A)"
proof (induction n)
  case 0
  show ?case by (auto simp: matches_def)
next
  case (Suc n)
  have s: "matches (seq m (rep_upto n m)) (conc A (\<Union>k\<in>{..n}. lpow k A))"
    by (rule matches_seq[OF assms Suc])
  have e: "(\<Union>k\<in>{..Suc n}. lpow k A) = {[]} \<union> conc A (\<Union>k\<in>{..n}. lpow k A)"
  proof -
    have "{..Suc n} = insert 0 (Suc ` {..n})"
      by (auto simp: image_iff atMost_Suc_eq_insert_0)
    then have "(\<Union>k\<in>{..Suc n}. lpow k A) = lpow 0 A \<union> (\<Union>k\<in>{..n}. lpow (Suc k) A)"
      by simp
    also have "(\<Union>k\<in>{..n}. lpow (Suc k) A) = conc A (\<Union>k\<in>{..n}. lpow k A)"
      by (auto simp: conc_def)
    finally show ?thesis by simp
  qed
  show ?case
    unfolding e using s by (auto simp: matches_def seq_def)
qed

lemma conc_lpow: "conc (lpow i A) (lpow j A) = lpow (i + j) A"
proof (induction i)
  case 0
  show ?case by (auto simp: conc_def)
next
  case (Suc i)
  have "conc (conc A (lpow i A)) (lpow j A) = conc A (conc (lpow i A) (lpow j A))"
    by (auto simp: conc_def) (metis append.assoc)+
  then show ?case using Suc by simp
qed

lemma matches_rep_between:
  assumes "matches m A" and "lo \<le> hi"
  shows "matches (rep_between lo hi m) (\<Union>k\<in>{lo..hi}. lpow k A)"
proof -
  have "matches (rep_between lo hi m) (conc (lpow lo A) (\<Union>k\<in>{..hi - lo}. lpow k A))"
    unfolding rep_between_def
    by (rule matches_seq[OF matches_rep_exact[OF assms(1)] matches_rep_upto[OF assms(1)]])
  moreover have "conc (lpow lo A) (\<Union>k\<in>{..hi - lo}. lpow k A) = (\<Union>k\<in>{lo..hi}. lpow k A)"
  proof -
    have "conc (lpow lo A) (\<Union>k\<in>{..hi - lo}. lpow k A) = (\<Union>k\<in>{..hi - lo}. lpow (lo + k) A)"
      unfolding conc_lpow[symmetric] by (auto simp: conc_def)
    also have "\<dots> = (\<Union>k\<in>(\<lambda>k. lo + k) ` {..hi - lo}. lpow k A)"
      by simp
    also have "(\<lambda>k. lo + k) ` {..hi - lo} = {lo..hi}"
    proof (intro set_eqI iffI)
      fix x assume "x \<in> (\<lambda>k. lo + k) ` {..hi - lo}"
      then show "x \<in> {lo..hi}" using assms(2) by auto
    next
      fix x assume "x \<in> {lo..hi}"
      then have "x = lo + (x - lo)" "x - lo \<in> {..hi - lo}" by auto
      then show "x \<in> (\<lambda>k. lo + k) ` {..hi - lo}" by (rule image_eqI)
    qed
    finally show ?thesis .
  qed
  ultimately show ?thesis by simp
qed

lemma lpow_length: "[] \<notin> A \<Longrightarrow> w \<in> lpow k A \<Longrightarrow> k \<le> length w"
proof (induction k arbitrary: w)
  case 0
  show ?case by simp
next
  case (Suc k)
  from Suc.prems(2) obtain u v where "w = u @ v" "u \<in> A" "v \<in> lpow k A"
    by (auto simp: conc_def)
  moreover have "u \<noteq> []" using Suc.prems(1) \<open>u \<in> A\<close> by auto
  ultimately show ?case using Suc.IH[OF Suc.prems(1), of v] by (cases u) auto
qed

lemma matches_rep_atleast:
  assumes "matches m A" and "[] \<notin> A"
  shows "matches (rep_atleast lo m) (\<Union>k\<in>{lo..}. lpow k A)"
proof -
  have M: "matches (seq (rep_exact lo m) (rep_upto n m))
             (conc (lpow lo A) (\<Union>k\<in>{..n}. lpow k A))" for n
    by (rule matches_seq[OF matches_rep_exact[OF assms(1)] matches_rep_upto[OF assms(1)]])
  have "rest \<in> set (rep_atleast lo m s) \<longleftrightarrow> (\<exists>w. w \<in> (\<Union>k\<in>{lo..}. lpow k A) \<and> s = w @ rest)"
    for s rest
  proof
    assume "rest \<in> set (rep_atleast lo m s)"
    then obtain w where w: "w \<in> conc (lpow lo A) (\<Union>k\<in>{..length s}. lpow k A)" "s = w @ rest"
      using matchesD[OF M, of rest "length s" s] by (auto simp: rep_atleast_def)
    then obtain u v k where "w = u @ v" "u \<in> lpow lo A" "v \<in> lpow k A"
      by (auto simp: conc_def)
    then have "w \<in> lpow (lo + k) A"
      unfolding conc_lpow[symmetric] by (auto simp: conc_def)
    then show "\<exists>w. w \<in> (\<Union>k\<in>{lo..}. lpow k A) \<and> s = w @ rest"
      using w(2) by (intro exI[of _ w]) auto
  next
    assume "\<exists>w. w \<in> (\<Union>k\<in>{lo..}. lpow k A) \<and> s = w @ rest"
    then obtain w k where w: "lo \<le> k" "w \<in> lpow k A" "s = w @ rest"
      by auto
    then have "w \<in> conc (lpow lo A) (lpow (k - lo) A)"
      by (simp add: conc_lpow)
    then obtain u v where uv: "w = u @ v" "u \<in> lpow lo A" "v \<in> lpow (k - lo) A"
      by (auto simp: conc_def)
    have "k - lo \<le> length v" by (rule lpow_length[OF assms(2) uv(3)])
    also have "\<dots> \<le> length s" using w(3) uv(1) by simp
    finally have "w \<in> conc (lpow lo A) (\<Union>k\<in>{..length s}. lpow k A)"
      using uv by (auto simp: conc_def)
    then show "rest \<in> set (rep_atleast lo m s)"
      using matchesD[OF M, of rest "length s" s] w(3) by (auto simp: rep_atleast_def)
  qed
  then show ?thesis by (simp add: matches_def)
qed

lemma concI: "u \<in> A \<Longrightarrow> v \<in> B \<Longrightarrow> u @ v \<in> conc A B"
  unfolding conc_def by blast

lemma concE: "w \<in> conc A B \<Longrightarrow> (\<And>u v. w = u @ v \<Longrightarrow> u \<in> A \<Longrightarrow> v \<in> B \<Longrightarrow> thesis) \<Longrightarrow> thesis"
  unfolding conc_def by blast

lemma CL_iff: "w \<in> CL P \<longleftrightarrow> (\<exists>c. w = [c] \<and> P c)"
  unfolding CL_def by blast

lemma lpow_CL: "lpow k (CL P) = {w. length w = k \<and> list_all P w}"
proof (induction k)
  case 0
  show ?case by auto
next
  case (Suc k)
  show ?case
  proof (intro set_eqI iffI)
    fix w assume "w \<in> lpow (Suc k) (CL P)"
    then have "w \<in> conc (CL P) (lpow k (CL P))" by simp
    then obtain u v where uv: "w = u @ v" "u \<in> CL P" "v \<in> lpow k (CL P)"
      by (rule concE)
    from uv(2) obtain c where c: "u = [c]" "P c" unfolding CL_iff by blast
    from uv(3) have v: "length v = k" "list_all P v" unfolding Suc by simp_all
    show "w \<in> {w. length w = Suc k \<and> list_all P w}"
      using uv(1) c v by simp
  next
    fix w assume "w \<in> {w. length w = Suc k \<and> list_all P w}"
    then obtain c cs where w: "w = c # cs" "P c" "length cs = k" "list_all P cs"
      by (cases w) auto
    have "[c] \<in> CL P" using w(2) unfolding CL_iff by blast
    moreover have "cs \<in> lpow k (CL P)" unfolding Suc using w(3,4) by simp
    ultimately have "[c] @ cs \<in> conc (CL P) (lpow k (CL P))"
      by (rule concI)
    then show "w \<in> lpow (Suc k) (CL P)"
      unfolding w(1) by simp
  qed
qed

lemma alpha_labels: "(\<Union>j\<in>{2..}. lpow j (CL alpha)) = {l. alpha_label l}"
  unfolding lpow_CL alpha_label_def by auto

lemma dotted_simps [simp]:
  "dotted [] = []" "dotted (l # ls) = CHR ''.'' # l @ dotted ls"
  by (simp_all add: dotted_def)

lemma dot_label_iff:
  "w \<in> conc (CL (\<lambda>c. c = CHR ''.'')) {l. alpha_label l} \<longleftrightarrow>
     (\<exists>l. w = CHR ''.'' # l \<and> alpha_label l)"
proof
  assume "w \<in> conc (CL (\<lambda>c. c = CHR ''.'')) {l. alpha_label l}"
  then obtain u v where "w = u @ v" "u \<in> CL (\<lambda>c. c = CHR ''.'')" "v \<in> {l. alpha_label l}"
    by (rule concE)
  then show "\<exists>l. w = CHR ''.'' # l \<and> alpha_label l"
    unfolding CL_iff by auto
next
  assume "\<exists>l. w = CHR ''.'' # l \<and> alpha_label l"
  then obtain l where l: "w = CHR ''.'' # l" "alpha_label l" by blast
  have "[CHR ''.''] \<in> CL (\<lambda>c. c = CHR ''.'')" unfolding CL_iff by blast
  moreover have "l \<in> {l. alpha_label l}" using l(2) by simp
  ultimately have "[CHR ''.''] @ l \<in> conc (CL (\<lambda>c. c = CHR ''.'')) {l. alpha_label l}"
    by (rule concI)
  then show "w \<in> conc (CL (\<lambda>c. c = CHR ''.'')) {l. alpha_label l}"
    unfolding l(1) by simp
qed

lemma lpow_dot_labels:
  "lpow k (conc (CL (\<lambda>c. c = CHR ''.'')) {l. alpha_label l}) =
     {w. \<exists>ls. w = dotted ls \<and> length ls = k \<and> list_all alpha_label ls}"
proof (induction k)
  case 0
  show ?case by auto
next
  case (Suc k)
  let ?D = "conc (CL (\<lambda>c. c = CHR ''.'')) {l. alpha_label l}"
  show ?case
  proof (intro set_eqI iffI)
    fix w assume "w \<in> lpow (Suc k) ?D"
    then have "w \<in> conc ?D (lpow k ?D)" by simp
    then obtain u v where uv: "w = u @ v" "u \<in> ?D" "v \<in> lpow k ?D"
      by (rule concE)
    from uv(2) obtain l where l: "u = CHR ''.'' # l" "alpha_label l"
      unfolding dot_label_iff by blast
    from uv(3) obtain ls where ls: "v = dotted ls" "length ls = k" "list_all alpha_label ls"
      unfolding Suc by blast
    have "w = dotted (l # ls) \<and> length (l # ls) = Suc k \<and> list_all alpha_label (l # ls)"
      using uv(1) l ls by simp
    then show "w \<in> {w. \<exists>ls. w = dotted ls \<and> length ls = Suc k \<and> list_all alpha_label ls}"
      by blast
  next
    fix w assume "w \<in> {w. \<exists>ls. w = dotted ls \<and> length ls = Suc k \<and> list_all alpha_label ls}"
    then obtain ls where ls: "w = dotted ls" "length ls = Suc k" "list_all alpha_label ls"
      by blast
    then obtain l ls' where c: "ls = l # ls'" by (cases ls) auto
    have "CHR ''.'' # l \<in> ?D" using ls(3) c unfolding dot_label_iff by simp
    moreover have "dotted ls' \<in> lpow k ?D"
    proof -
      have "length ls' = k" "list_all alpha_label ls'" using ls(2,3) c by simp_all
      then show ?thesis unfolding Suc by blast
    qed
    ultimately have "(CHR ''.'' # l) @ dotted ls' \<in> conc ?D (lpow k ?D)"
      by (rule concI)
    then show "w \<in> lpow (Suc k) ?D"
      unfolding ls(1) c by simp
  qed
qed

lemma dot_labels:
  "(\<Union>k\<in>{1..}. lpow k (conc (CL (\<lambda>c. c = CHR ''.'')) {l. alpha_label l})) =
     {w. \<exists>ls. w = dotted ls \<and> ls \<noteq> [] \<and> list_all alpha_label ls}"
proof (intro set_eqI iffI)
  fix w assume "w \<in> (\<Union>k\<in>{1..}. lpow k (conc (CL (\<lambda>c. c = CHR ''.'')) {l. alpha_label l}))"
  then obtain k ls where "1 \<le> k" "w = dotted ls" "length ls = k" "list_all alpha_label ls"
    unfolding lpow_dot_labels by blast
  then have "w = dotted ls \<and> ls \<noteq> [] \<and> list_all alpha_label ls" by auto
  then show "w \<in> {w. \<exists>ls. w = dotted ls \<and> ls \<noteq> [] \<and> list_all alpha_label ls}"
    by blast
next
  fix w assume "w \<in> {w. \<exists>ls. w = dotted ls \<and> ls \<noteq> [] \<and> list_all alpha_label ls}"
  then obtain ls where ls: "w = dotted ls" "ls \<noteq> []" "list_all alpha_label ls" by blast
  then have "length ls \<in> {1..}" by (cases ls) auto
  moreover have "w \<in> {w. \<exists>ls'. w = dotted ls' \<and> length ls' = length ls \<and> list_all alpha_label ls'}"
    using ls by blast
  ultimately show "w \<in> (\<Union>k\<in>{1..}. lpow k (conc (CL (\<lambda>c. c = CHR ''.'')) {l. alpha_label l}))"
    unfolding lpow_dot_labels by (rule UN_I)
qed

lemma alnum_not_hyphen: "alnum c \<Longrightarrow> c \<noteq> CHR ''-''"
  by (auto simp: alnum_def alpha_def digit_def)

lemma alnum_hyphen_not_dot: "alnum_hyphen c \<Longrightarrow> c \<noteq> CHR ''.''"
  by (auto simp: alnum_hyphen_def alnum_def alpha_def digit_def)

lemma alpha_not_dot: "alpha c \<Longrightarrow> c \<noteq> CHR ''.''"
  by (auto simp: alpha_def)

lemma alpha_not_newline: "alpha c \<Longrightarrow> c \<noteq> CHR 0x0A"
  by (auto simp: alpha_def)

lemma alnum_hyphen_iff: "alnum_hyphen c \<and> c \<noteq> CHR ''-'' \<longleftrightarrow> alnum c"
  using alnum_not_hyphen by (auto simp: alnum_hyphen_def)

lemma first_label_iff:
  "first_label l \<longleftrightarrow>
     (\<exists>a mid b. l = a # mid @ [b] \<and> alnum a \<and> alnum b \<and> list_all alnum_hyphen mid
                 \<and> 1 \<le> length mid \<and> length mid \<le> 61)"
proof
  assume f: "first_label l"
  then have len: "3 \<le> length l" "length l \<le> 63" and all: "list_all alnum_hyphen l"
    and h: "hd l \<noteq> CHR ''-''" and t: "last l \<noteq> CHR ''-''"
    by (simp_all add: first_label_def)
  from len obtain a rest where l: "l = a # rest" by (cases l) auto
  with len have "rest \<noteq> []" by auto
  then have r: "rest = butlast rest @ [last rest]" by simp
  let ?mid = "butlast rest" and ?b = "last rest"
  have l': "l = a # ?mid @ [?b]" using l r by simp
  have "list_all alnum_hyphen (a # ?mid @ [?b])" using all l' by simp
  then have ah: "alnum_hyphen a" "list_all alnum_hyphen ?mid" "alnum_hyphen ?b"
    by simp_all
  have "a \<noteq> CHR ''-''" using h l by simp
  then have a: "alnum a" using ah(1) alnum_hyphen_iff by blast
  have "?b \<noteq> CHR ''-''" using t l \<open>rest \<noteq> []\<close> by simp
  then have b: "alnum ?b" using ah(3) alnum_hyphen_iff by blast
  have "length l = length ?mid + 2" using l \<open>rest \<noteq> []\<close> by simp
  then have "1 \<le> length ?mid" "length ?mid \<le> 61" using len by simp_all
  then show "\<exists>a mid b. l = a # mid @ [b] \<and> alnum a \<and> alnum b \<and> list_all alnum_hyphen mid
                 \<and> 1 \<le> length mid \<and> length mid \<le> 61"
    using l' a b ah(2) by blast
next
  assume "\<exists>a mid b. l = a # mid @ [b] \<and> alnum a \<and> alnum b \<and> list_all alnum_hyphen mid
                 \<and> 1 \<le> length mid \<and> length mid \<le> 61"
  then obtain a mid b where l: "l = a # mid @ [b]" and a: "alnum a" and b: "alnum b"
    and m: "list_all alnum_hyphen mid" "1 \<le> length mid" "length mid \<le> 61"
    by blast
  have "alnum_hyphen a" "alnum_hyphen b" "a \<noteq> CHR ''-''" "b \<noteq> CHR ''-''"
    using a b alnum_hyphen_iff by blast+
  then show "first_label l"
    unfolding first_label_def l using m by simp
qed

lemma mid_lang_iff: "m \<in> mid_lang \<longleftrightarrow> list_all alnum_hyphen m \<and> 1 \<le> length m \<and> length m \<le> 61"
  unfolding mid_lang_def lpow_CL by auto

lemma head_lang:
  "w \<in> conc (CL alnum) (conc mid_lang (conc (CL alnum) X)) \<longleftrightarrow>
     (\<exists>l x. w = l @ x \<and> first_label l \<and> x \<in> X)"
proof
  assume "w \<in> conc (CL alnum) (conc mid_lang (conc (CL alnum) X))"
  then obtain u1 r1 where 1: "w = u1 @ r1" "u1 \<in> CL alnum" "r1 \<in> conc mid_lang (conc (CL alnum) X)"
    by (rule concE)
  from 1(3) obtain m r2 where 2: "r1 = m @ r2" "m \<in> mid_lang" "r2 \<in> conc (CL alnum) X"
    by (rule concE)
  from 2(3) obtain u3 x where 3: "r2 = u3 @ x" "u3 \<in> CL alnum" "x \<in> X"
    by (rule concE)
  from 1(2) obtain a where a: "u1 = [a]" "alnum a" unfolding CL_iff by blast
  from 3(2) obtain b where b: "u3 = [b]" "alnum b" unfolding CL_iff by blast
  have m: "list_all alnum_hyphen m" "1 \<le> length m" "length m \<le> 61"
    using 2(2) unfolding mid_lang_iff by simp_all
  have "first_label (a # m @ [b])"
    unfolding first_label_iff using a(2) b(2) m by blast
  moreover have "w = (a # m @ [b]) @ x"
    using 1(1) 2(1) 3(1) a(1) b(1) by simp
  ultimately show "\<exists>l x. w = l @ x \<and> first_label l \<and> x \<in> X"
    using 3(3) by blast
next
  assume "\<exists>l x. w = l @ x \<and> first_label l \<and> x \<in> X"
  then obtain l x where w: "w = l @ x" and f: "first_label l" and x: "x \<in> X" by blast
  from f obtain a m b where l: "l = a # m @ [b]" and a: "alnum a" and b: "alnum b"
    and m: "list_all alnum_hyphen m" "1 \<le> length m" "length m \<le> 61"
    unfolding first_label_iff by blast
  have "[b] \<in> CL alnum" using b unfolding CL_iff by blast
  then have "[b] @ x \<in> conc (CL alnum) X" using x by (rule concI)
  moreover have "m \<in> mid_lang" using m unfolding mid_lang_iff by simp
  ultimately have "m @ [b] @ x \<in> conc mid_lang (conc (CL alnum) X)"
    by (rule concI[rotated])
  moreover have "[a] \<in> CL alnum" using a unfolding CL_iff by blast
  ultimately have "[a] @ m @ [b] @ x \<in> conc (CL alnum) (conc mid_lang (conc (CL alnum) X))"
    by (rule concI[rotated])
  then show "w \<in> conc (CL alnum) (conc mid_lang (conc (CL alnum) X))"
    unfolding w l by simp
qed

lemma matches_cls': "matches (cls P) (CL P)"
  unfolding CL_def by (rule matches_cls)

lemma matches_domain_pattern:
  "matches domain_pattern (conc (CL alnum) (conc mid_lang (conc (CL alnum) tail_lang)))"
proof -
  have e1: "[] \<notin> CL alpha" unfolding CL_iff by simp
  have a: "matches (rep_atleast 2 (cls alpha)) {l. alpha_label l}"
    using matches_rep_atleast[OF matches_cls' e1, of 2] unfolding alpha_labels .
  let ?D = "conc (CL (\<lambda>c. c = CHR ''.'')) {l. alpha_label l}"
  have d: "matches (seq (cls (\<lambda>c. c = CHR ''.'')) (rep_atleast 2 (cls alpha))) ?D"
    by (rule matches_seq[OF matches_cls' a])
  have e2: "[] \<notin> ?D" unfolding dot_label_iff by simp
  have t: "matches (rep_atleast 1 (seq (cls (\<lambda>c. c = CHR ''.'')) (rep_atleast 2 (cls alpha)))) tail_lang"
    using matches_rep_atleast[OF d e2, of 1] unfolding dot_labels tail_lang_def .
  have m: "matches (rep_between 1 61 (cls alnum_hyphen)) mid_lang"
    unfolding mid_lang_def by (rule matches_rep_between[OF matches_cls']) simp
  show ?thesis
    unfolding domain_pattern_def
    by (intro matches_seq matches_cls' m t)
qed

lemma domain_pattern_iff:
  "rest \<in> set (domain_pattern s) \<longleftrightarrow> (\<exists>w. shape w \<and> s = w @ rest)"
proof -
  have "w \<in> conc (CL alnum) (conc mid_lang (conc (CL alnum) tail_lang)) \<longleftrightarrow> shape w" for w
    unfolding head_lang shape_def tail_lang_def by blast
  then show ?thesis
    using matchesD[OF matches_domain_pattern, of rest s] by simp
qed

lemma re_match_domain_pattern:
  "re_match domain_pattern d \<longleftrightarrow> shape d \<or> (\<exists>w. shape w \<and> d = w @ [CHR 0x0A])"
proof -
  have "re_match domain_pattern d \<longleftrightarrow>
          [] \<in> set (domain_pattern d) \<or> [CHR 0x0A] \<in> set (domain_pattern d)"
    unfolding re_match_def list_ex_iff by blast
  then show ?thesis
    unfolding domain_pattern_iff by simp
qed

lemma split_dots_not_Nil: "split_dots d \<noteq> []"
  by (induction d) (auto split: list.splits)

lemma split_dots_no_dot: "CHR ''.'' \<notin> set l \<Longrightarrow> split_dots l = [l]"
  by (induction l) auto

lemma split_dots_append_dot:
  "CHR ''.'' \<notin> set l \<Longrightarrow> split_dots (l @ CHR ''.'' # rest) = l # split_dots rest"
  by (induction l) auto

lemma split_dots_dotted:
  assumes "CHR ''.'' \<notin> set l" and "\<forall>x\<in>set ls. CHR ''.'' \<notin> set x"
  shows "split_dots (l @ dotted ls) = l # ls"
  using assms
proof (induction ls arbitrary: l)
  case Nil
  then show ?case by (simp add: split_dots_no_dot)
next
  case (Cons x ls)
  have "split_dots (l @ dotted (x # ls)) = l # split_dots (x @ dotted ls)"
    using Cons.prems(1) by (simp add: split_dots_append_dot)
  also have "split_dots (x @ dotted ls) = x # ls"
    using Cons.prems(2) by (intro Cons.IH) simp_all
  finally show ?case .
qed

lemma split_dots_join: "split_dots d = l # ls \<Longrightarrow> d = l @ dotted ls"
proof (induction d arbitrary: l ls)
  case Nil
  then show ?case by simp
next
  case (Cons c d)
  show ?case
  proof (cases "c = CHR ''.''")
    case True
    with Cons.prems have l: "l = []" and s: "split_dots d = ls" by simp_all
    from s split_dots_not_Nil[of d] obtain x xs where xs: "ls = x # xs" by (cases ls) auto
    with s Cons.IH[of x xs] have "d = x @ dotted xs" by simp
    then show ?thesis using True l xs by simp
  next
    case False
    obtain x xs where xs: "split_dots d = x # xs"
      using split_dots_not_Nil[of d] by (cases "split_dots d") auto
    with False Cons.prems have "l = c # x" "ls = xs" by simp_all
    moreover have "d = x @ dotted xs" using Cons.IH[OF xs] .
    ultimately show ?thesis by simp
  qed
qed

lemma first_label_no_dot: "first_label l \<Longrightarrow> CHR ''.'' \<notin> set l"
  unfolding first_label_def list_all_iff using alnum_hyphen_not_dot by blast

lemma alpha_label_no_dot: "alpha_label l \<Longrightarrow> CHR ''.'' \<notin> set l"
  unfolding alpha_label_def list_all_iff using alpha_not_dot by blast

lemma shape_iff_accepted: "shape d \<longleftrightarrow> accepted_hostname d"
proof
  assume "shape d"
  then obtain l ls where d: "d = l @ dotted ls" and f: "first_label l" and n: "ls \<noteq> []"
    and a: "list_all alpha_label ls"
    unfolding shape_def by blast
  have "\<forall>x\<in>set ls. CHR ''.'' \<notin> set x"
    using a alpha_label_no_dot unfolding list_all_iff by blast
  then have "split_dots d = l # ls"
    unfolding d using first_label_no_dot[OF f] by (intro split_dots_dotted)
  then show "accepted_hostname d"
    unfolding accepted_hostname_def using f n a by simp
next
  assume a: "accepted_hostname d"
  obtain l ls where s: "split_dots d = l # ls"
    using split_dots_not_Nil[of d] by (cases "split_dots d") auto
  with a have "first_label l" "ls \<noteq> []" "list_all alpha_label ls"
    unfolding accepted_hostname_def by simp_all
  moreover have "d = l @ dotted ls" using split_dots_join[OF s] .
  ultimately show "shape d" unfolding shape_def by blast
qed

lemma re_match_iff_accepted:
  "re_match domain_pattern d \<longleftrightarrow>
     accepted_hostname d \<or> (d \<noteq> [] \<and> last d = CHR 0x0A \<and> accepted_hostname (butlast d))"
proof -
  have "(\<exists>w. shape w \<and> d = w @ [CHR 0x0A]) \<longleftrightarrow>
          (d \<noteq> [] \<and> last d = CHR 0x0A \<and> shape (butlast d))"
  proof
    assume "\<exists>w. shape w \<and> d = w @ [CHR 0x0A]"
    then show "d \<noteq> [] \<and> last d = CHR 0x0A \<and> shape (butlast d)" by auto
  next
    assume "d \<noteq> [] \<and> last d = CHR 0x0A \<and> shape (butlast d)"
    then have "shape (butlast d) \<and> d = butlast d @ [CHR 0x0A]"
      using append_butlast_last_id[of d] by simp
    then show "\<exists>w. shape w \<and> d = w @ [CHR 0x0A]" by blast
  qed
  then show ?thesis
    unfolding re_match_domain_pattern shape_iff_accepted by simp
qed

text \<open>
  What the validator accepts: the strings that resolve and whose labels have the shape
  \<open>accepted_hostname\<close>, with or without one newline after the last label (\<open>$\<close> also
  holds just before a final newline).
\<close>

lemma is_valid_domain_iff:
  "is_valid_domain e d \<longleftrightarrow>
     (accepted_hostname d \<or> (d \<noteq> [] \<and> last d = CHR 0x0A \<and> accepted_hostname (butlast d)))
     \<and> (\<exists>address. gethostbyname e d = Inr address)"
proof -
  have "(case gethostbyname e d of Inl Gaierror \<Rightarrow> False | Inr x \<Rightarrow> True) \<longleftrightarrow>
          (\<exists>address. gethostbyname e d = Inr address)"
    by (cases "gethostbyname e d") (auto split: gaierror.splits)
  then show ?thesis
    unfolding is_valid_domain_def re_match_iff_accepted[symmetric] by simp
qed

text \<open>
  C6.  The claim fails on the code.  \<open>ab.com\<close> (first label of two characters),
  \<open>www.ex-ample.com\<close> (hyphen in a middle label) and \<open>www.example1.com\<close> (digit in a
  middle label) all satisfy the hostname grammar of the specification and resolve, yet
  \<open>is_valid_domain\<close> returns \<open>False\<close> for each of them: the pattern asks for at least
  three characters in the first label and for letters only in every later label.
  \<open>abc.com\<close> and \<open>example.com\<close>, one character longer or without the digit and hyphen,
  are accepted.
\<close>

theorem is_valid_domain_rejects_valid_hostnames:
  "spec_hostname ''ab.com'' \<and>
   gethostbyname (always_respond 200 []) ''ab.com'' = Inr ''192.0.2.1'' \<and>
   \<not> is_valid_domain (always_respond 200 []) ''ab.com'' \<and>
   spec_hostname ''www.ex-ample.com'' \<and>
   gethostbyname (always_respond 200 []) ''www.ex-ample.com'' = Inr ''192.0.2.1'' \<and>
   \<not> is_valid_domain (always_respond 200 []) ''www.ex-ample.com'' \<and>
   spec_hostname ''www.example1.com'' \<and>
   gethostbyname (always_respond 200 []) ''www.example1.com'' = Inr ''192.0.2.1'' \<and>
   \<not> is_valid_domain (always_respond 200 []) ''www.example1.com'' \<and>
   spec_hostname ''abc.com'' \<and> is_valid_domain (always_respond 200 []) ''abc.com'' \<and>
   spec_hostname ''example.com'' \<and> is_valid_domain (always_respond 200 []) ''example.com''"
proof -
  have g: "gethostbyname (always_respond 200 []) x = Inr ''192.0.2.1''" for x
    by (simp add: always_respond_def stub_env_def)
  have s: "spec_hostname ''ab.com''" "spec_hostname ''www.ex-ample.com''"
    "spec_hostname ''www.example1.com''" "spec_hostname ''abc.com''"
    "spec_hostname ''example.com''"
    by code_simp+
  have r: "\<not> re_match domain_pattern ''ab.com''"
    "\<not> re_match domain_pattern ''www.ex-ample.com''"
    "\<not> re_match domain_pattern ''www.example1.com''"
    "re_match domain_pattern ''abc.com''"
    "re_match domain_pattern ''example.com''"
    by code_simp+
  show ?thesis
    using s r g by (simp add: is_valid_domain_def)
qed

end
